theory Spec2Isabelle
  imports Main
begin

section \<open>Text and numbers\<close>

text \<open>
  A Go \<^verbatim>\<open>string\<close> is a sequence of bytes, so it is a \<^typ>\<open>string\<close> here and
  \<^verbatim>\<open>len\<close> is \<^const>\<open>length\<close>. The data boundary of the protocol is the tab byte.
\<close>

definition DELIMITER :: char where
  "DELIMITER = CHR 0x09"

definition MaxInt32 :: int where
  "MaxInt32 = 2147483647"

definition MinInt32 :: int where
  "MinInt32 = - 2147483648"

text \<open>
  \<^verbatim>\<open>strconv.IntSize\<close>, the width of Go's \<^verbatim>\<open>int\<close>: 64 on the 64-bit targets, which
  are the ones modelled. \<^verbatim>\<open>ParseInt(str, 10, 0)\<close> parses to that width.
\<close>

definition IntSize :: nat where
  "IntSize = 64"

text \<open>The verb \<^verbatim>\<open>%d\<close> of \<^verbatim>\<open>fmt\<close>: decimal digits, with a minus sign when negative.\<close>

fun digits_nat :: "nat \<Rightarrow> string" where
  "digits_nat n =
     (if n < 10 then [''0123456789'' ! n]
      else digits_nat (n div 10) @ [''0123456789'' ! (n mod 10)])"

declare digits_nat.simps [simp del]

definition fmt_d :: "int \<Rightarrow> string" where
  "fmt_d i = (if i < 0 then CHR ''-'' # digits_nat (nat (- i)) else digits_nat (nat i))"

text \<open>The conversion \<^verbatim>\<open>int32(num)\<close> of a 64-bit value keeps the low 32 bits, signed.\<close>

definition int32 :: "int \<Rightarrow> int" where
  "int32 n = (n + 2147483648) mod 4294967296 - 2147483648"

section \<open>strconv.ParseInt at base 10\<close>

text \<open>
  The standard library's parser, as \<^verbatim>\<open>strToInt32\<close> calls it (base 10, so no prefix and
  no underscore is accepted). Like the Go functions, both return a value together with an
  optional error. The accumulator of \<^verbatim>\<open>ParseUint\<close> is a \<^verbatim>\<open>uint64\<close>: the one addition
  that can wrap is written with \<open>mod 2 ^ 64\<close>.
\<close>

datatype num_err = ErrSyntax | ErrRange

definition lower :: "char \<Rightarrow> nat" where
  "lower c = or (of_char c) 32"

definition digit_of :: "char \<Rightarrow> nat option" where
  "digit_of c =
     (let k = of_char c :: nat in
      if 48 \<le> k \<and> k \<le> 57 then Some (k - 48)
      else if 97 \<le> lower c \<and> lower c \<le> 122 then Some (lower c - 97 + 10)
      else None)"

definition maxUint64 :: nat where
  "maxUint64 = 18446744073709551615"

fun ParseUint_loop :: "nat \<Rightarrow> nat \<Rightarrow> string \<Rightarrow> nat \<times> num_err option" where
  "ParseUint_loop maxVal n [] = (n, None)"
| "ParseUint_loop maxVal n (c # cs) =
     (case digit_of c of
        None \<Rightarrow> (0, Some ErrSyntax)
      | Some d \<Rightarrow>
          if d \<ge> 10 then (0, Some ErrSyntax)
          else if n \<ge> maxUint64 div 10 + 1 then (maxVal, Some ErrRange)
          else
            let n10 = n * 10;
                n1 = (n10 + d) mod 2 ^ 64
            in if n1 < n10 \<or> n1 > maxVal then (maxVal, Some ErrRange)
               else ParseUint_loop maxVal n1 cs)"

definition ParseUint :: "string \<Rightarrow> nat \<Rightarrow> nat \<times> num_err option" where
  "ParseUint s bitSize =
     (if s = [] then (0, Some ErrSyntax)
      else
        let bs = (if bitSize = 0 then IntSize else bitSize)
        in ParseUint_loop (2 ^ bs - 1) 0 s)"

definition ParseInt :: "string \<Rightarrow> nat \<Rightarrow> int \<times> num_err option" where
  "ParseInt s0 bitSize =
     (if s0 = [] then (0, Some ErrSyntax)
      else
        let neg = (hd s0 = CHR ''-'');
            s = (if hd s0 = CHR ''+'' \<or> hd s0 = CHR ''-'' then tl s0 else s0);
            (un, err) = ParseUint s bitSize
        in if err \<noteq> None \<and> err \<noteq> Some ErrRange then (0, err)
           else
             let bs = (if bitSize = 0 then IntSize else bitSize);
                 cutoff = (2::nat) ^ (bs - 1)
             in if \<not> neg \<and> un \<ge> cutoff then (int cutoff - 1, Some ErrRange)
                else if neg \<and> un > cutoff then (- int cutoff, Some ErrRange)
                else (if neg then - int un else int un, None))"

section \<open>The request processor\<close>

text \<open>
  \<^verbatim>\<open>strToInt32\<close> returns the number, or an error whose text is the description sent back
  to the client: the error is modelled by that text (\<open>Inl\<close>).
\<close>

definition strToInt32 :: "string \<Rightarrow> string + int" where
  "strToInt32 str =
     (case ParseInt str 0 of
        (num, Some e) \<Rightarrow> Inl (CHR 0x22 # str @ CHR 0x22 # '' is not integer'')
      | (num, None) \<Rightarrow>
          if num > MaxInt32 \<or> num < MinInt32
          then Inl (fmt_d num @ '' is not 32-bit integer'')
          else Inr (int32 num))"

section \<open>Decimal literals\<close>

text \<open>
  What a request is meant to carry: an optional sign and decimal digits. \<open>dec_value\<close> is
  the number the digits denote, read left to right from an initial value.
\<close>

definition is_digit :: "char \<Rightarrow> bool" where
  "is_digit c = (48 \<le> (of_char c :: nat) \<and> (of_char c :: nat) \<le> 57)"

definition dec_value :: "nat \<Rightarrow> string \<Rightarrow> nat" where
  "dec_value n ds = foldl (\<lambda>a c. a * 10 + (of_char c - 48)) n ds"


section \<open>The connection\<close>

text \<open>
  \<^verbatim>\<open>net.Conn\<close> is an interface to the transport; the model is one endpoint together with
  what its environment will do. Time is a logical clock in nanoseconds (\<^verbatim>\<open>time.Now()\<close> is
  \<open>clock\<close>). \<open>incoming\<close> is what the transport will hand to the successive \<^verbatim>\<open>Read\<close>
  calls, each item with the time it becomes available: a byte, a return of zero bytes
  with no error, or a failure. When the list is used up the peer has closed (\<open>EOF\<close>).
  \<open>outcomes\<close> is what the transport answers to the successive \<^verbatim>\<open>Write\<close> calls: how long
  the call stays blocked, and whether it succeeds (when the list is used up, every write
  succeeds at once). \<open>writes\<close> is the buffer handed to each \<^verbatim>\<open>Write\<close> call, in order, and
  \<open>closes\<close> the number of \<^verbatim>\<open>Close\<close> calls. Time passes while a call waits, in a read
  and in a write alike.
\<close>

datatype ioerr = EOF | ErrTimeout | ErrOther string

datatype rd_event = Data int char | Empty int | Failure int ioerr

fun ev_time :: "rd_event \<Rightarrow> int" where
  "ev_time (Data t b) = t"
| "ev_time (Empty t) = t"
| "ev_time (Failure t e) = t"

datatype wr_outcome = WriteOk nat | WriteFail nat nat ioerr

fun wr_delay :: "wr_outcome \<Rightarrow> nat" where
  "wr_delay (WriteOk d) = d"
| "wr_delay (WriteFail d k e) = d"

record conn =
  clock :: int
  readDeadline :: "int option"
  incoming :: "rd_event list"
  outcomes :: "wr_outcome list"
  writes :: "string list"
  closes :: nat

definition Second :: int where
  "Second = 1000000000"

definition SetReadDeadline :: "conn \<Rightarrow> int \<Rightarrow> conn" where
  "SetReadDeadline c t = c\<lparr>readDeadline := Some t\<rparr>"

text \<open>A deadline is an absolute time after which a read fails instead of blocking.\<close>

definition expired :: "int option \<Rightarrow> int \<Rightarrow> bool" where
  "expired dl t = (case dl of None \<Rightarrow> False | Some d \<Rightarrow> d < t)"

text \<open>
  \<^verbatim>\<open>conn.Read(p)\<close> for a buffer \<open>p\<close> of one byte, whose content before the call is \<open>cell\<close>.
  The result is the byte count, the error and the content of \<open>p\<close> afterwards. The call
  waits until the next item is available; if the deadline passes first it fails with a
  timeout and consumes nothing.
\<close>

definition conn_Read :: "conn \<Rightarrow> char \<Rightarrow> (nat \<times> ioerr option \<times> char) \<times> conn" where
  "conn_Read c cell =
     (case incoming c of
        [] \<Rightarrow> ((0, Some EOF, cell), c)
      | ev # rest \<Rightarrow>
          let tc = max (clock c) (ev_time ev)
          in if expired (readDeadline c) tc
             then ((0, Some ErrTimeout, cell),
                   c\<lparr>clock := (case readDeadline c of
                                  None \<Rightarrow> clock c
                                | Some d \<Rightarrow> max (clock c) d)\<rparr>)
             else
               let c' = c\<lparr>clock := tc, incoming := rest\<rparr>
               in case ev of
                    Data t b \<Rightarrow> ((1, None, b), c')
                  | Empty t \<Rightarrow> ((0, None, cell), c')
                  | Failure t e \<Rightarrow> ((0, Some e, cell), c'))"

text \<open>
  \<^verbatim>\<open>conn.Write(p)\<close>: all of \<open>p\<close> is written and the count is \<open>len(p)\<close>, or the transport
  fails after some bytes and returns that count with the error. No write deadline is ever
  set on the connection, so the call returns when the transport lets it: the clock moves
  on by the time the call was blocked.
\<close>

definition conn_Write :: "conn \<Rightarrow> string \<Rightarrow> (nat \<times> ioerr option) \<times> conn" where
  "conn_Write c p =
     (case outcomes c of
        [] \<Rightarrow> ((length p, None), c\<lparr>writes := writes c @ [p]\<rparr>)
      | WriteOk d # os \<Rightarrow>
          ((length p, None),
           c\<lparr>clock := clock c + int d, outcomes := os, writes := writes c @ [p]\<rparr>)
      | WriteFail d k e # os \<Rightarrow>
          ((min k (length p), Some e),
           c\<lparr>clock := clock c + int d, outcomes := os, writes := writes c @ [p]\<rparr>))"

definition conn_Close :: "conn \<Rightarrow> conn" where
  "conn_Close c = c\<lparr>closes := closes c + 1\<rparr>"

section \<open>The framing codec\<close>

text \<open>
  \<^verbatim>\<open>read\<close>: the loop reads one byte at a time into \<^verbatim>\<open>readBytes\<close> (one byte, zero at
  first) and collects the bytes in \<^verbatim>\<open>buffer\<close> until the delimiter. The byte count
  that \<^verbatim>\<open>conn.Read\<close> returns is discarded, as in the source.
\<close>

function read_loop :: "conn \<Rightarrow> char \<Rightarrow> string \<Rightarrow> (ioerr + string) \<times> conn" where
  "read_loop c cell buffer =
     (case conn_Read c cell of
        ((n, Some err, cell'), c') \<Rightarrow> (Inl err, c')
      | ((n, None, readByte), c') \<Rightarrow>
          if readByte = DELIMITER then (Inr buffer, c')
          else read_loop c' readByte (buffer @ [readByte]))"
  by pat_completeness auto
termination
  by (relation "measure (\<lambda>(c, cell, buffer). length (incoming c))")
    (auto simp add: conn_Read_def Let_def split: list.splits if_splits rd_event.splits)

declare read_loop.simps [simp del]

definition read :: "conn \<Rightarrow> (ioerr + string) \<times> conn" where
  "read c = read_loop c (CHR 0x00) []"

text \<open>
  \<^verbatim>\<open>write\<close> (named \<open>write_msg\<close> here: \<open>write\<close> is a keyword of Isar): the content
  and the delimiter go out in one \<^verbatim>\<open>conn.Write\<close>.
\<close>

definition write_msg :: "conn \<Rightarrow> string \<Rightarrow> (nat \<times> ioerr option) \<times> conn" where
  "write_msg c content = conn_Write c (content @ [DELIMITER])"


section \<open>The completion tracker\<close>

text \<open>
  \<^verbatim>\<open>sync.WaitGroup\<close>: a counter; \<^verbatim>\<open>Add\<close> panics when the counter would become
  negative (\<open>None\<close>), and \<^verbatim>\<open>Done\<close> is \<^verbatim>\<open>Add(-1)\<close>.
\<close>

definition wg_Add :: "int \<Rightarrow> int \<Rightarrow> int option" where
  "wg_Add delta counter = (if counter + delta < 0 then None else Some (counter + delta))"

definition wg_Done :: "int \<Rightarrow> int option" where
  "wg_Done counter = wg_Add (- 1) counter"

section \<open>The connection handler\<close>

text \<open>The lines that the server prints, one constructor for each call of the logger.\<close>

datatype log_line =
    ListenError string
  | GotListener
  | AcceptError string
  | Established
  | ClosedByOtherSide
  | ReadError ioerr
  | ReceivedRequest string
  | SentErrorMessage nat "ioerr option"
  | WriteError ioerr
  | SentResponse nat string

text \<open>
  The text of the answer to a valid request. \<open>cbrt_text v\<close> stands for what the verb
  \<^verbatim>\<open>%f\<close> prints for \<^verbatim>\<open>math.Cbrt(float64(v))\<close>: floating point is outside this
  development, so that text is a parameter of the handler.
\<close>

definition respMsg :: "(int \<Rightarrow> string) \<Rightarrow> int \<Rightarrow> string" where
  "respMsg cbrt_text intReq =
     ''The cube root of '' @ fmt_d intReq @ '' is '' @ cbrt_text intReq @ ''.''"

datatype flow = Continue | Break

text \<open>
  One pass through the body of the loop of \<^verbatim>\<open>handleConn\<close>, on the connection and the
  lines printed so far; the result says whether the loop goes on.
\<close>

definition handleConn_body ::
  "(int \<Rightarrow> string) \<Rightarrow> conn \<times> log_line list \<Rightarrow> flow \<times> conn \<times> log_line list" where
  "handleConn_body cbrt_text s =
     (case s of (c, out) \<Rightarrow>
        let c1 = SetReadDeadline c (clock c + 10 * Second)
        in case read c1 of
             (Inl err, c2) \<Rightarrow>
               (Break, c2, out @ [if err = EOF then ClosedByOtherSide else ReadError err])
           | (Inr strReq, c2) \<Rightarrow>
               let out1 = out @ [ReceivedRequest strReq]
               in case strToInt32 strReq of
                    Inl e \<Rightarrow>
                      (case write_msg c2 e of
                         ((n, werr), c3) \<Rightarrow> (Continue, c3, out1 @ [SentErrorMessage n werr]))
                  | Inr intReq \<Rightarrow>
                      (case write_msg c2 (respMsg cbrt_text intReq) of
                         ((n, werr), c3) \<Rightarrow>
                           let out2 = (case werr of
                                         Some e \<Rightarrow> out1 @ [WriteError e]
                                       | None \<Rightarrow> out1)
                           in (Continue, c3,
                               out2 @ [SentResponse n (respMsg cbrt_text intReq)])))"

function handleConn_loop ::
  "(int \<Rightarrow> string) \<Rightarrow> conn \<times> log_line list \<Rightarrow> conn \<times> log_line list" where
  "handleConn_loop cbrt_text s =
     (case handleConn_body cbrt_text s of
        (Break, s') \<Rightarrow> s'
      | (Continue, s') \<Rightarrow> handleConn_loop cbrt_text s')"
  by pat_completeness auto
termination
proof (relation "measure (\<lambda>(f, c, out). length (incoming c))")
  show "wf (measure (\<lambda>(f, c, out). length (incoming c)))"
    by simp
next
  fix cbrt_text :: "int \<Rightarrow> string" and s s' :: "conn \<times> log_line list" and x :: flow
  assume body: "(x, s') = handleConn_body cbrt_text s" and x: "x = Continue"
  have rd: "length (incoming c') < length (incoming c)"
    if "read_loop c cell buffer = (Inr str, c')" for c cell buffer str c'
    using that
  proof (induction c cell buffer rule: read_loop.induct)
    case (1 c cell buffer)
    obtain n e b c1 where cr: "conn_Read c cell = ((n, e, b), c1)"
      by (metis prod.exhaust)
    show ?case
    proof (cases e)
      case (Some err)
      then show ?thesis using "1.prems" cr by (simp add: read_loop.simps)
    next
      case None
      have step: "length (incoming c1) < length (incoming c)"
        using cr None
        by (auto simp add: conn_Read_def Let_def split: list.splits if_splits rd_event.splits)
      show ?thesis
      proof (cases "b = DELIMITER")
        case True
        then show ?thesis using "1.prems" cr None step by (simp add: read_loop.simps)
      next
        case False
        have "read_loop c1 b (buffer @ [b]) = (Inr str, c')"
          using "1.prems" cr None False by (simp add: read_loop.simps)
        then have "length (incoming c') < length (incoming c1)"
          using "1.IH" [of "(n, e, b)" c1 n "(e, b)" e b] cr None False by simp
        then show ?thesis using step by simp
      qed
    qed
  qed
  have wr: "incoming c' = incoming c" if "write_msg c p = (r, c')" for c p r c'
    using that
    by (auto simp add: write_msg_def conn_Write_def split: list.splits wr_outcome.splits)
  obtain c out where s: "s = (c, out)"
    by (cases s)
  obtain c' out' where s': "s' = (c', out')"
    by (cases s')
  have "length (incoming c') < length (incoming c)"
    using body x s s' rd [of "SetReadDeadline c (clock c + 10 * Second)" "CHR 0x00" "[]"]
    by (auto simp add: handleConn_body_def Let_def read_def SetReadDeadline_def
        split: prod.splits sum.splits dest!: wr)
  then show "((cbrt_text, s'), (cbrt_text, s)) \<in> measure (\<lambda>(f, c, out). length (incoming c))"
    using s s' by simp
qed

declare handleConn_loop.simps [simp del]

text \<open>
  \<^verbatim>\<open>handleConn\<close>: the loop, then the deferred function closes the connection and marks
  the tracker (the third component; \<open>None\<close> is the panic of a negative counter).
\<close>

definition handleConn ::
  "(int \<Rightarrow> string) \<Rightarrow> conn \<Rightarrow> log_line list \<Rightarrow> int \<Rightarrow> conn \<times> log_line list \<times> int option" where
  "handleConn cbrt_text c out wg =
     (case handleConn_loop cbrt_text (c, out) of
        (c', out') \<Rightarrow> (conn_Close c', out', wg_Done wg))"

section \<open>The acceptor\<close>

text \<open>
  \<^verbatim>\<open>serverGo\<close> against a script of what the successive \<^verbatim>\<open>Accept\<close> calls return, each a
  pair of a connection (\<open>None\<close> is \<^verbatim>\<open>nil\<close>) and an error. The handlers started with
  \<^verbatim>\<open>go\<close> are collected in order. The loop has no exit of its own: it ends by the panic
  of calling \<^verbatim>\<open>RemoteAddr\<close> on a nil connection, or stays blocked in \<^verbatim>\<open>Accept\<close> when
  the script is used up.
\<close>

datatype server_exit = ListenFailed | NilConnPanic | BlockedInAccept

fun serverGo_loop ::
  "(conn option \<times> string option) list \<Rightarrow> conn list \<Rightarrow> log_line list
     \<Rightarrow> server_exit \<times> conn list \<times> log_line list" where
  "serverGo_loop [] spawned out = (BlockedInAccept, spawned, out)"
| "serverGo_loop ((conn, err) # rest) spawned out =
     (let out1 = (case err of Some e \<Rightarrow> out @ [AcceptError e] | None \<Rightarrow> out)
      in case conn of
           None \<Rightarrow> (NilConnPanic, spawned, out1)
         | Some c \<Rightarrow> serverGo_loop rest (spawned @ [c]) (out1 @ [Established]))"

definition serverGo ::
  "string option \<Rightarrow> (conn option \<times> string option) list
     \<Rightarrow> server_exit \<times> conn list \<times> log_line list" where
  "serverGo listen_err accepts =
     (case listen_err of
        Some e \<Rightarrow> (ListenFailed, [], [ListenError e])
      | None \<Rightarrow> serverGo_loop accepts [] [GotListener])"

section \<open>The tasks of the program and the tracker\<close>

text \<open>
  The steps of the program that start or end a task or touch the tracker, as an
  interleaving: \<^verbatim>\<open>main\<close> adds 2 and starts \<^verbatim>\<open>serverGo\<close> and \<^verbatim>\<open>clientGo\<close>; the server
  starts a handler for each accepted connection; a handler and the client call
  \<^verbatim>\<open>wg.Done()\<close> when they end; the server returns (on a listen error) without it.
\<close>

record prog =
  wg :: int
  server_running :: bool
  client_running :: bool
  handlers_running :: nat
  panicked :: bool

datatype event = SpawnHandler | HandlerEnds | ClientEnds | ServerReturns

definition main_started :: prog where
  "main_started =
     (case wg_Add 2 0 of
        None \<Rightarrow>
          \<lparr>wg = 0, server_running = False, client_running = False,
           handlers_running = 0, panicked = True\<rparr>
      | Some w \<Rightarrow>
          \<lparr>wg = w, server_running = True, client_running = True,
           handlers_running = 0, panicked = False\<rparr>)"

definition done_by :: "prog \<Rightarrow> prog" where
  "done_by p = (case wg_Done (wg p) of None \<Rightarrow> p\<lparr>panicked := True\<rparr> | Some w \<Rightarrow> p\<lparr>wg := w\<rparr>)"

text \<open>A step that is not enabled in the state gives \<open>None\<close>.\<close>

fun step :: "event \<Rightarrow> prog \<Rightarrow> prog option" where
  "step SpawnHandler p =
     (if server_running p \<and> \<not> panicked p
      then Some (p\<lparr>handlers_running := handlers_running p + 1\<rparr>) else None)"
| "step HandlerEnds p =
     (if 0 < handlers_running p \<and> \<not> panicked p
      then Some (done_by (p\<lparr>handlers_running := handlers_running p - 1\<rparr>)) else None)"
| "step ClientEnds p =
     (if client_running p \<and> \<not> panicked p
      then Some (done_by (p\<lparr>client_running := False\<rparr>)) else None)"
| "step ServerReturns p =
     (if server_running p \<and> \<not> panicked p
      then Some (p\<lparr>server_running := False\<rparr>) else None)"

fun run :: "event list \<Rightarrow> prog \<Rightarrow> prog option" where
  "run [] p = Some p"
| "run (e # es) p = (case step e p of None \<Rightarrow> None | Some p' \<Rightarrow> run es p')"

definition tasks_running :: "prog \<Rightarrow> nat" where
  "tasks_running p =
     (if server_running p then 1 else 0) + (if client_running p then 1 else 0)
       + handlers_running p"


section \<open>Quantities used in the statements\<close>

text \<open>
  An item of \<open>incoming\<close> that carries the delimiter, and the number of them in a list:
  the number of complete requests that the list holds.
\<close>

definition is_delim :: "rd_event \<Rightarrow> bool" where
  "is_delim ev = (case ev of Data t b \<Rightarrow> b = DELIMITER | _ \<Rightarrow> False)"

definition delims :: "rd_event list \<Rightarrow> nat" where
  "delims evs = length (filter is_delim evs)"

text \<open>The time for which the next \<open>n\<close> writes on a connection stay blocked, in all.\<close>

definition blocked :: "nat \<Rightarrow> wr_outcome list \<Rightarrow> int" where
  "blocked n os = int (sum_list (map wr_delay (take n os)))"

text \<open>A connection just accepted, with nothing arriving, used in the examples.\<close>

definition conn0 :: conn where
  "conn0 =
     \<lparr>clock = 0, readDeadline = None, incoming = [], outcomes = [], writes = [], closes = 0\<rparr>"

text \<open>
  A value of the parameter \<open>cbrt_text\<close> for the examples, which send the request 8
  only: the cube root of 8 is 2, printed by \<^verbatim>\<open>%f\<close> as \<^verbatim>\<open>2.000000\<close>.
\<close>

definition cbrt_text_sample :: "int \<Rightarrow> string" where
  "cbrt_text_sample v = (if v = 8 then ''2.000000'' else ''0.000000'')"


section \<open>The parser on decimal literals\<close>

lemma dec_value_Nil [simp]: "dec_value n [] = n"
  by (simp add: dec_value_def)

lemma dec_value_Cons [simp]: "dec_value n (c # cs) = dec_value (n * 10 + (of_char c - 48)) cs"
  by (simp add: dec_value_def)

lemma dec_value_mono: "n \<le> dec_value n ds"
proof (induction ds arbitrary: n)
  case Nil
  show ?case by simp
next
  case (Cons c cs)
  have "n \<le> n * 10 + (of_char c - 48)" by simp
  also have "\<dots> \<le> dec_value (n * 10 + (of_char c - 48)) cs" by (rule Cons.IH)
  finally show ?case by simp
qed

lemma digit_of_digit: "is_digit c \<Longrightarrow> digit_of c = Some (of_char c - 48)"
  by (simp add: is_digit_def digit_of_def)

lemma digit_lt_10: "is_digit c \<Longrightarrow> (of_char c :: nat) - 48 < 10"
  by (auto simp add: is_digit_def)

lemma ParseUint_loop_value:
  assumes "\<forall>c\<in>set ds. is_digit c" and "dec_value n ds \<le> maxVal" and "maxVal \<le> maxUint64"
  shows "ParseUint_loop maxVal n ds = (dec_value n ds, None)"
  using assms
proof (induction ds arbitrary: n)
  case Nil
  show ?case by simp
next
  case (Cons c cs)
  let ?d = "(of_char c :: nat) - 48"
  let ?n1 = "n * 10 + ?d"
  have dig: "is_digit c" using Cons.prems(1) by simp
  have v: "dec_value ?n1 cs \<le> maxVal" using Cons.prems(2) by simp
  have n1: "?n1 \<le> maxVal" using dec_value_mono [of ?n1 cs] v by linarith
  have n1' : "?n1 \<le> maxUint64" using n1 Cons.prems(3) by linarith
  have small: "?n1 < 2 ^ 64" using n1' by (simp add: maxUint64_def)
  have cut: "\<not> n \<ge> maxUint64 div 10 + 1" using n1' by (simp add: maxUint64_def)
  have md: "?n1 mod 18446744073709551616 = ?n1" using small by simp
  have rec: "ParseUint_loop maxVal ?n1 cs = (dec_value ?n1 cs, None)"
    using Cons.IH [of ?n1] Cons.prems(1) v Cons.prems(3) by simp
  show ?case
    using dig cut n1 rec digit_lt_10 [OF dig]
    by (simp add: digit_of_digit md Let_def del: One_nat_def)
qed

lemma ParseUint_loop_range:
  assumes "\<forall>c\<in>set ds. is_digit c" and "maxVal < dec_value n ds" and "n \<le> maxVal"
    and "maxVal \<le> maxUint64"
  shows "ParseUint_loop maxVal n ds = (maxVal, Some ErrRange)"
  using assms
proof (induction ds arbitrary: n)
  case Nil
  then show ?case by simp
next
  case (Cons c cs)
  let ?d = "(of_char c :: nat) - 48"
  let ?n1 = "n * 10 + ?d"
  have dig: "is_digit c" using Cons.prems(1) by simp
  have d10: "?d < 10" by (rule digit_lt_10 [OF dig])
  have v: "maxVal < dec_value ?n1 cs" using Cons.prems(2) by simp
  show ?case
  proof (cases "n \<ge> maxUint64 div 10 + 1")
    case True
    then show ?thesis using dig d10 by (simp add: digit_of_digit del: One_nat_def)
  next
    case False
    note cut = False
    have n10: "n * 10 \<le> maxUint64" using cut by (simp add: maxUint64_def)
    show ?thesis
    proof (cases "?n1 < 2 ^ 64")
      case True
      then have md: "?n1 mod 18446744073709551616 = ?n1" by simp
      show ?thesis
      proof (cases "?n1 > maxVal")
        case True
        then show ?thesis using dig d10 cut
          by (simp add: digit_of_digit md Let_def del: One_nat_def)
      next
        case False
        then have le: "?n1 \<le> maxVal" by simp
        have rec: "ParseUint_loop maxVal ?n1 cs = (maxVal, Some ErrRange)"
          using Cons.IH [of ?n1] Cons.prems(1) v le Cons.prems(4) by simp
        show ?thesis using dig d10 cut le rec
          by (simp add: digit_of_digit md Let_def del: One_nat_def)
      qed
    next
      case False
      then have ge: "2 ^ 64 \<le> ?n1" by simp
      have lt2: "?n1 < 2 * 2 ^ 64" using n10 d10 by (simp add: maxUint64_def)
      have "?n1 mod 2 ^ 64 = ?n1 - 2 ^ 64"
        using ge lt2 by (simp add: mod_if le_mod_geq)
      moreover have "?n1 - 2 ^ 64 < n * 10" using ge d10 by simp
      ultimately have wrap: "?n1 mod 18446744073709551616 < n * 10" by simp
      show ?thesis using dig d10 cut wrap
        by (simp add: digit_of_digit Let_def del: One_nat_def)
    qed
  qed
qed


lemma ParseUint_digits:
  assumes "ds \<noteq> []" and "\<forall>c\<in>set ds. is_digit c"
  shows "ParseUint ds 0 =
           (if dec_value 0 ds \<le> maxUint64 then (dec_value 0 ds, None)
            else (maxUint64, Some ErrRange))"
proof (cases "dec_value 0 ds \<le> maxUint64")
  case True
  have "ParseUint_loop maxUint64 0 ds = (dec_value 0 ds, None)"
    using assms(2) True by (intro ParseUint_loop_value) simp_all
  then show ?thesis using assms(1) True
    by (simp add: ParseUint_def IntSize_def maxUint64_def)
next
  case False
  have "ParseUint_loop maxUint64 0 ds = (maxUint64, Some ErrRange)"
    using assms(2) False by (intro ParseUint_loop_range) simp_all
  then show ?thesis using assms(1) False
    by (simp add: ParseUint_def IntSize_def maxUint64_def)
qed

lemma is_digit_not_sign: "is_digit c \<Longrightarrow> c \<noteq> CHR ''+'' \<and> c \<noteq> CHR ''-''"
  by (auto simp add: is_digit_def)

lemma ParseInt_literal:
  assumes "sg = [] \<or> sg = ''+'' \<or> sg = ''-''" and "ds \<noteq> []" and "\<forall>c\<in>set ds. is_digit c"
  shows "ParseInt (sg @ ds) 0 =
           (if sg \<noteq> ''-'' \<and> dec_value 0 ds \<ge> 2 ^ 63 then (2 ^ 63 - 1, Some ErrRange)
            else if sg = ''-'' \<and> dec_value 0 ds > 2 ^ 63 then (- (2 ^ 63), Some ErrRange)
            else (if sg = ''-'' then - int (dec_value 0 ds) else int (dec_value 0 ds), None))"
proof -
  have hd_ds: "hd ds \<noteq> CHR ''+'' \<and> hd ds \<noteq> CHR ''-''"
    using assms(2,3) by (intro is_digit_not_sign) simp
  note pu = ParseUint_digits [OF assms(2,3)]
  from assms(1) consider "sg = []" | "sg = ''+''" | "sg = ''-''" by blast
  then show ?thesis
  proof cases
    case 1
    then show ?thesis using assms(2) hd_ds pu
      by (simp add: ParseInt_def IntSize_def maxUint64_def)
  next
    case 2
    then show ?thesis using pu
      by (simp add: ParseInt_def IntSize_def maxUint64_def)
  next
    case 3
    then show ?thesis using pu
      by (simp add: ParseInt_def IntSize_def maxUint64_def)
  qed
qed

text \<open>
  Claim C3, as the code has it. A request that is a decimal literal (an optional sign,
  then digits) whose value is outside the signed 32-bit range is refused. When the value
  fits the 64-bit \<^verbatim>\<open>int\<close> that \<^verbatim>\<open>ParseInt\<close> parses to, the description is the
  \<^verbatim>\<open>is not 32-bit integer\<close> one, carrying the value. When the value is too wide for 64
  bits, \<^verbatim>\<open>ParseInt\<close> itself fails and the description is the \<^verbatim>\<open>is not integer\<close> one,
  carrying the text.
\<close>

theorem strToInt32_out_of_range:
  assumes "sg = [] \<or> sg = ''+'' \<or> sg = ''-''"
    and "ds \<noteq> []" and "\<forall>c\<in>set ds. is_digit c"
    and "v = (if sg = ''-'' then - int (dec_value 0 ds) else int (dec_value 0 ds))"
    and "v > MaxInt32 \<or> v < MinInt32"
  shows "strToInt32 (sg @ ds) =
           (if - (2 ^ 63) \<le> v \<and> v < 2 ^ 63
            then Inl (fmt_d v @ '' is not 32-bit integer'')
            else Inl (CHR 0x22 # (sg @ ds) @ CHR 0x22 # '' is not integer''))"
proof -
  define u where "u = dec_value 0 ds"
  define s where "s = sg @ ds"
  have pi: "ParseInt s 0 =
           (if sg \<noteq> ''-'' \<and> u \<ge> 2 ^ 63 then (2 ^ 63 - 1, Some ErrRange)
            else if sg = ''-'' \<and> u > 2 ^ 63 then (- (2 ^ 63), Some ErrRange)
            else (if sg = ''-'' then - int u else int u, None))"
    unfolding u_def s_def by (rule ParseInt_literal [OF assms(1,2,3)])
  have v: "v = (if sg = ''-'' then - int u else int u)"
    using assms(4) by (simp add: u_def)
  have "strToInt32 s =
           (if - (2 ^ 63) \<le> v \<and> v < 2 ^ 63
            then Inl (fmt_d v @ '' is not 32-bit integer'')
            else Inl (CHR 0x22 # s @ CHR 0x22 # '' is not integer''))"
    using v assms(5)
    by (auto simp add: strToInt32_def pi MaxInt32_def MinInt32_def)
  then show ?thesis by (simp add: s_def)
qed

theorem strToInt32_out_of_range_witness:
  "strToInt32 ''99999999999'' = Inl ''99999999999 is not 32-bit integer''
   \<and> strToInt32 ''-2147483649'' = Inl ''-2147483649 is not 32-bit integer''
   \<and> strToInt32 ''+9223372036854775808''
       = Inl (CHR 0x22 # ''+9223372036854775808'' @ CHR 0x22 # '' is not integer'')"
proof -
  have a: "strToInt32 ''99999999999'' = Inl ''99999999999 is not 32-bit integer''"
    using strToInt32_out_of_range [of "[]" "''99999999999''" 99999999999]
    by (simp add: is_digit_def MaxInt32_def MinInt32_def fmt_d_def digits_nat.simps)
  have b: "strToInt32 ''-2147483649'' = Inl ''-2147483649 is not 32-bit integer''"
    using strToInt32_out_of_range [of "''-''" "''2147483649''" "- 2147483649"]
    by (simp add: is_digit_def MaxInt32_def MinInt32_def fmt_d_def digits_nat.simps)
  have c: "strToInt32 ''+9223372036854775808''
       = Inl (CHR 0x22 # ''+9223372036854775808'' @ CHR 0x22 # '' is not integer'')"
    using strToInt32_out_of_range [of "''+''" "''9223372036854775808''" 9223372036854775808]
    by (simp add: is_digit_def MaxInt32_def MinInt32_def)
  show ?thesis using a b c by simp
qed

text \<open>
  The claim C3 as it was stated asks for the \<^verbatim>\<open>is not 32-bit integer\<close> description
  also beyond 64 bits; at \<open>2 ^ 63\<close> the answer is the other description.
\<close>

theorem strToInt32_beyond_int64_counterexample:
  "strToInt32 ''9223372036854775808''
     = Inl (CHR 0x22 # ''9223372036854775808'' @ CHR 0x22 # '' is not integer'')
   \<and> strToInt32 ''9223372036854775808'' \<noteq> Inl ''9223372036854775808 is not 32-bit integer''"
  by (simp add: strToInt32_def ParseInt_def ParseUint_def IntSize_def digit_of_def
      lower_def maxUint64_def)



section \<open>Properties of the framing codec\<close>

lemma delims_Cons: "delims (e # es) = (if is_delim e then 1 else 0) + delims es"
  by (simp add: delims_def)

lemma read_loop_timeout:
  "incoming c = e # es \<Longrightarrow> readDeadline c = Some d \<Longrightarrow> d < max (clock c) (ev_time e) \<Longrightarrow>
   read_loop c cell buffer = (Inl ErrTimeout, c\<lparr>clock := max (clock c) d\<rparr>)"
  by (subst read_loop.simps) (simp add: conn_Read_def expired_def)

lemma read_loop_consume:
  assumes "incoming c = e # es" and "\<not> expired (readDeadline c) (max (clock c) (ev_time e))"
  shows "read_loop c cell buffer =
     (let c' = c\<lparr>clock := max (clock c) (ev_time e), incoming := es\<rparr>
      in case e of
           Data t b \<Rightarrow> if b = DELIMITER then (Inr buffer, c') else read_loop c' b (buffer @ [b])
         | Empty t \<Rightarrow> if cell = DELIMITER then (Inr buffer, c') else read_loop c' cell (buffer @ [cell])
         | Failure t err \<Rightarrow> (Inl err, c'))"
  using assms
  by (subst read_loop.simps) (simp add: conn_Read_def Let_def split: rd_event.splits)

lemma write_msg_fields:
  assumes "write_msg c p = (r, c')"
  shows "writes c' = writes c @ [p @ [DELIMITER]] \<and> closes c' = closes c
         \<and> incoming c' = incoming c
         \<and> clock c' = clock c + blocked 1 (outcomes c)
         \<and> outcomes c' = tl (outcomes c)
         \<and> readDeadline c' = readDeadline c"
  using assms
  by (auto simp add: write_msg_def conn_Write_def blocked_def
      split: list.splits wr_outcome.splits)

lemma conn_Read_fields:
  "conn_Read c cell = (x, c') \<Longrightarrow>
     writes c' = writes c \<and> closes c' = closes c \<and> outcomes c' = outcomes c
     \<and> readDeadline c' = readDeadline c"
  by (auto simp add: conn_Read_def Let_def split: list.splits if_splits rd_event.splits)

lemma read_loop_fields:
  "read_loop c cell buffer = (r, c') \<Longrightarrow>
     writes c' = writes c \<and> closes c' = closes c \<and> outcomes c' = outcomes c
     \<and> readDeadline c' = readDeadline c"
proof (induction c cell buffer rule: read_loop.induct)
  case (1 c cell buffer)
  obtain n e b c1 where cr: "conn_Read c cell = ((n, e, b), c1)"
    by (metis prod.exhaust)
  note F = conn_Read_fields [OF cr]
  show ?case
  proof (cases "e = None \<and> b \<noteq> DELIMITER")
    case True
    then have "read_loop c1 b (buffer @ [b]) = (r, c')"
      using "1.prems" cr by (subst (asm) read_loop.simps) simp
    then show ?thesis
      using "1.IH" [of "(n, e, b)" c1 n "(e, b)" e b] cr True F by simp
  next
    case False
    then have "c' = c1"
      using "1.prems" cr by (subst (asm) read_loop.simps) (auto split: option.splits)
    then show ?thesis using F by simp
  qed
qed

lemma read_fields:
  "read c = (r, c') \<Longrightarrow>
     writes c' = writes c \<and> closes c' = closes c \<and> outcomes c' = outcomes c
     \<and> readDeadline c' = readDeadline c"
  unfolding read_def by (rule read_loop_fields)

lemma read_loop_frame:
  assumes "incoming c = map2 Data ts (xs @ [DELIMITER]) @ rest"
    and "length ts = length xs + 1"
    and "DELIMITER \<notin> set xs"
    and "\<forall>t\<in>set ts. \<not> expired (readDeadline c) (max (clock c) t)"
  shows "fst (read_loop c cell buffer) = Inr (buffer @ xs)
         \<and> incoming (snd (read_loop c cell buffer)) = rest"
  using assms
proof (induction xs arbitrary: ts c cell buffer)
  case Nil
  then obtain t where ts: "ts = [t]"
    by (cases ts) simp_all
  have inc: "incoming c = Data t DELIMITER # rest" using Nil.prems(1) ts by simp
  have ne: "\<not> expired (readDeadline c) (max (clock c) (ev_time (Data t DELIMITER)))"
    using Nil.prems(4) ts by simp
  show ?case
    by (simp add: read_loop_consume [OF inc ne])
next
  case (Cons x xs)
  then obtain t ts' where ts: "ts = t # ts'" "length ts' = length xs + 1"
    by (cases ts) simp_all
  have inc: "incoming c = Data t x # (map2 Data ts' (xs @ [DELIMITER]) @ rest)"
    using Cons.prems(1) ts by simp
  have ne: "\<not> expired (readDeadline c) (max (clock c) (ev_time (Data t x)))"
    using Cons.prems(4) ts by simp
  have x: "x \<noteq> DELIMITER" "DELIMITER \<notin> set xs" using Cons.prems(3) by auto
  let ?c' = "c\<lparr>clock := max (clock c) t, incoming := map2 Data ts' (xs @ [DELIMITER]) @ rest\<rparr>"
  have later: "\<forall>u\<in>set ts'. \<not> expired (readDeadline ?c') (max (clock ?c') u)"
    using Cons.prems(4) ts by (auto simp add: expired_def split: option.splits)
  have "fst (read_loop ?c' x (buffer @ [x])) = Inr ((buffer @ [x]) @ xs)
         \<and> incoming (snd (read_loop ?c' x (buffer @ [x]))) = rest"
    using ts(2) x(2) later by (intro Cons.IH) simp_all
  then show ?case using x(1)
    by (simp add: read_loop_consume [OF inc ne])
qed

text \<open>
  Claim C5. A payload without the delimiter is written by \<open>write_msg\<close> on one end; the
  bytes of that write arrive at the other end, each at its own time and none after the
  read deadline, followed by whatever comes next (\<open>rest\<close>). Then \<open>read\<close> returns the
  payload, and what it leaves unread is exactly \<open>rest\<close>: it has consumed the payload and
  the one delimiter, and no byte of a later message.
\<close>

theorem write_read_roundtrip:
  assumes "DELIMITER \<notin> set payload"
    and "write_msg a payload = ((n, None), a')"
    and "length ts = length (last (writes a'))"
    and "incoming b = map2 Data ts (last (writes a')) @ rest"
    and "\<forall>t\<in>set ts. \<not> expired (readDeadline b) (max (clock b) t)"
  shows "fst (read b) = Inr payload \<and> incoming (snd (read b)) = rest"
proof -
  have wire: "last (writes a') = payload @ [DELIMITER]"
    using write_msg_fields [OF assms(2)] by simp
  show ?thesis
    unfolding read_def
    using read_loop_frame [of b ts payload rest "CHR 0x00" "[]"] assms(1,3,4,5) wire
    by simp
qed

theorem write_read_roundtrip_witness:
  "fst (write_msg conn0 ''27'') = (3, None)
   \<and> writes (snd (write_msg conn0 ''27'')) = [''27'' @ [DELIMITER]]
   \<and> fst (read (conn0\<lparr>incoming := map2 Data [5, 5, 6] (''27'' @ [DELIMITER])
                                      @ [Data 7 (CHR ''8'')]\<rparr>)) = Inr ''27''
   \<and> incoming (snd (read (conn0\<lparr>incoming := map2 Data [5, 5, 6] (''27'' @ [DELIMITER])
                                      @ [Data 7 (CHR ''8'')]\<rparr>))) = [Data 7 (CHR ''8'')]"
proof -
  have w: "write_msg conn0 ''27'' = ((3, None), conn0\<lparr>writes := [''27'' @ [DELIMITER]]\<rparr>)"
    by (simp add: write_msg_def conn_Write_def conn0_def)
  have d: "DELIMITER \<notin> set ''27''"
    by (simp add: DELIMITER_def)
  show ?thesis
    using w write_read_roundtrip [OF d w, of "[5, 5, 6]"
           "conn0\<lparr>incoming := map2 Data [5, 5, 6] (''27'' @ [DELIMITER]) @ [Data 7 (CHR ''8'')]\<rparr>"
           "[Data 7 (CHR ''8'')]"]
    by (simp add: conn0_def expired_def)
qed

text \<open>
  Claim C6. \<open>write_msg\<close> hands the transport one buffer, the content followed by one
  delimiter, in a single \<^verbatim>\<open>Write\<close> call; when that call reports no error, the count
  returned is the length of the content plus one.
\<close>

theorem write_msg_single_write:
  assumes "write_msg c content = ((n, err), c')"
  shows "writes c' = writes c @ [content @ [DELIMITER]]
         \<and> (err = None \<longrightarrow> n = length content + 1)"
  using assms
  by (auto simp add: write_msg_def conn_Write_def split: list.splits wr_outcome.splits)

theorem write_msg_single_write_witness:
  "writes (snd (write_msg conn0 ''abc'')) = [''abc'' @ [DELIMITER]]
   \<and> fst (write_msg conn0 ''abc'') = (4, None)"
proof -
  have w: "write_msg conn0 ''abc'' = ((4, None), conn0\<lparr>writes := [''abc'' @ [DELIMITER]]\<rparr>)"
    by (simp add: write_msg_def conn_Write_def conn0_def)
  show ?thesis
    using write_msg_single_write [OF w] w by (simp add: conn0_def)
qed

text \<open>
  Claim C7, as the code has it. \<open>read\<close> discards the byte count of every single-byte
  read. When a read returns zero bytes and no error, \<open>read\<close> raises no error and does not
  stop: the loop goes on as after a received byte, and the byte it takes is the one its
  one-byte buffer holds (zero before the first byte, the byte received last afterwards).
\<close>

theorem read_zero_bytes_not_rejected:
  assumes "incoming c = Empty t # rest"
    and "\<not> expired (readDeadline c) (max (clock c) t)"
    and "cell \<noteq> DELIMITER"
  shows "read_loop c cell buffer
           = read_loop (c\<lparr>clock := max (clock c) t, incoming := rest\<rparr>) cell (buffer @ [cell])"
proof -
  have ne: "\<not> expired (readDeadline c) (max (clock c) (ev_time (Empty t)))"
    using assms(2) by simp
  show ?thesis
    using assms(3) by (simp add: read_loop_consume [OF assms(1) ne])
qed

theorem read_zero_bytes_not_rejected_witness:
  "read_loop (conn0\<lparr>incoming := [Empty 3, Data 4 DELIMITER]\<rparr>) (CHR ''7'') ''7''
     = (Inr ''77'', conn0\<lparr>clock := 4\<rparr>)"
proof -
  have a: "incoming (conn0\<lparr>incoming := [Empty 3, Data 4 DELIMITER]\<rparr>)
             = Empty 3 # [Data 4 DELIMITER]"
    by simp
  have b: "\<not> expired (readDeadline (conn0\<lparr>incoming := [Empty 3, Data 4 DELIMITER]\<rparr>))
                 (max (clock (conn0\<lparr>incoming := [Empty 3, Data 4 DELIMITER]\<rparr>)) 3)"
    by (simp add: conn0_def expired_def)
  have c: "CHR ''7'' \<noteq> DELIMITER"
    by (simp add: DELIMITER_def)
  show ?thesis
    using read_zero_bytes_not_rejected [OF a b c, of "''7''"]
    by (simp add: read_loop.simps conn_Read_def conn0_def expired_def)
qed

text \<open>
  The claim C7 as it was stated asks for a protocol violation. With a zero-byte read
  between the byte \<open>7\<close> and the delimiter, \<open>read\<close> succeeds and returns \<open>77\<close>: the
  stale byte is taken as a byte of the message.
\<close>

theorem read_zero_bytes_counterexample:
  "read (conn0\<lparr>incoming := [Data 0 (CHR ''7''), Empty 0, Data 0 DELIMITER]\<rparr>)
     = (Inr ''77'', conn0)"
  by (simp add: read_def read_loop.simps conn_Read_def conn0_def expired_def DELIMITER_def)

section \<open>Properties of the connection handler\<close>

lemma handleConn_body_deadline:
  "readDeadline (fst (snd (handleConn_body f (c, out)))) = Some (clock c + 10 * Second)"
proof -
  obtain r c2 where rd: "read (SetReadDeadline c (clock c + 10 * Second)) = (r, c2)"
    by (metis prod.exhaust)
  have d2: "readDeadline c2 = Some (clock c + 10 * Second)"
    using read_fields [OF rd] by (simp add: SetReadDeadline_def)
  show ?thesis
  proof (cases r)
    case (Inl err)
    then show ?thesis using rd d2 by (simp add: handleConn_body_def)
  next
    case (Inr strReq)
    obtain p where p: "p = (case strToInt32 strReq of Inl e \<Rightarrow> e | Inr v \<Rightarrow> respMsg f v)"
      by simp
    obtain n werr c3 where w: "write_msg c2 p = ((n, werr), c3)"
      by (metis prod.exhaust)
    have "fst (snd (handleConn_body f (c, out))) = c3"
      using rd Inr p w by (auto simp add: handleConn_body_def Let_def split: sum.splits)
    then show ?thesis using write_msg_fields [OF w] d2 by simp
  qed
qed

lemma handleConn_loop_Continue:
  "fst (handleConn_body f s) = Continue \<Longrightarrow>
   handleConn_loop f s = handleConn_loop f (snd (handleConn_body f s))"
  by (subst handleConn_loop.simps) (cases "handleConn_body f s", simp)

text \<open>
  Claim C8. When the request read in a pass of the loop fails validation (\<open>strToInt32\<close>
  returns a description, of either kind), the pass writes exactly one message, the
  description followed by the delimiter, does not close the connection, and the loop
  goes on with the next pass, whatever the outcome of the write.
\<close>

theorem validation_failure_answered:
  assumes "read (SetReadDeadline c (clock c + 10 * Second)) = (Inr strReq, c2)"
    and "strToInt32 strReq = Inl e"
  shows "fst (handleConn_body f (c, out)) = Continue
       \<and> writes (fst (snd (handleConn_body f (c, out)))) = writes c @ [e @ [DELIMITER]]
       \<and> closes (fst (snd (handleConn_body f (c, out)))) = closes c
       \<and> handleConn_loop f (c, out) = handleConn_loop f (snd (handleConn_body f (c, out)))"
proof -
  obtain n werr c3 where w: "write_msg c2 e = ((n, werr), c3)"
    by (metis prod.exhaust)
  have body: "handleConn_body f (c, out)
                = (Continue, c3, out @ [ReceivedRequest strReq, SentErrorMessage n werr])"
    using assms w by (simp add: handleConn_body_def Let_def)
  have r: "writes c2 = writes c" "closes c2 = closes c"
    using read_fields [OF assms(1)] by (simp_all add: SetReadDeadline_def)
  have "fst (handleConn_body f (c, out)) = Continue" using body by simp
  from handleConn_loop_Continue [OF this] show ?thesis
    using body write_msg_fields [OF w] r by simp
qed

theorem validation_failure_answered_witness:
  "fst (handleConn_body cbrt_text_sample (conn0\<lparr>incoming := map (Data 0) (''abc'' @ [DELIMITER])\<rparr>, []))
     = Continue
   \<and> writes (fst (snd (handleConn_body cbrt_text_sample
         (conn0\<lparr>incoming := map (Data 0) (''abc'' @ [DELIMITER])\<rparr>, []))))
     = [CHR 0x22 # ''abc'' @ CHR 0x22 # '' is not integer'' @ [DELIMITER]]"
proof -
  let ?c = "conn0\<lparr>incoming := map (Data 0) (''abc'' @ [DELIMITER])\<rparr>"
  have rd: "read (SetReadDeadline ?c (clock ?c + 10 * Second))
              = (Inr ''abc'', conn0\<lparr>readDeadline := Some 10000000000\<rparr>)"
    by (simp add: read_def read_loop.simps conn_Read_def conn0_def expired_def DELIMITER_def
        Second_def SetReadDeadline_def)
  have v: "strToInt32 ''abc'' = Inl (CHR 0x22 # ''abc'' @ CHR 0x22 # '' is not integer'')"
    by (simp add: strToInt32_def ParseInt_def ParseUint_def IntSize_def digit_of_def
        lower_def maxUint64_def)
  show ?thesis
    using validation_failure_answered [OF rd v, of cbrt_text_sample "[]"]
    by (simp add: conn0_def)
qed

text \<open>
  Claim C1, as the code has it. When the write of the response fails in a pass of the
  loop (the response to a valid request, or the description sent for an invalid one),
  the write is not retried: the pass has issued that one write. The loop does not end
  there: for a valid request the failure is printed, the connection stays open, and the
  loop goes on with the next pass, which reads again.
\<close>

theorem write_failure_continues:
  assumes "read (SetReadDeadline c (clock c + 10 * Second)) = (Inr strReq, c2)"
    and "resp = (case strToInt32 strReq of Inl e \<Rightarrow> e | Inr v \<Rightarrow> respMsg f v)"
    and "write_msg c2 resp = ((n, Some err), c3)"
  shows "fst (handleConn_body f (c, out)) = Continue
       \<and> fst (snd (handleConn_body f (c, out))) = c3
       \<and> writes c3 = writes c @ [resp @ [DELIMITER]]
       \<and> closes c3 = closes c
       \<and> (\<forall>v. strToInt32 strReq = Inr v \<longrightarrow>
            snd (snd (handleConn_body f (c, out)))
              = out @ [ReceivedRequest strReq, WriteError err, SentResponse n resp])
       \<and> handleConn_loop f (c, out) = handleConn_loop f (snd (handleConn_body f (c, out)))"
proof -
  have r: "writes c2 = writes c" "closes c2 = closes c"
    using read_fields [OF assms(1)] by (simp_all add: SetReadDeadline_def)
  have body: "fst (handleConn_body f (c, out)) = Continue
       \<and> fst (snd (handleConn_body f (c, out))) = c3
       \<and> (\<forall>v. strToInt32 strReq = Inr v \<longrightarrow>
            snd (snd (handleConn_body f (c, out)))
              = out @ [ReceivedRequest strReq, WriteError err, SentResponse n resp])"
    using assms by (cases "strToInt32 strReq") (simp_all add: handleConn_body_def Let_def)
  then have "fst (handleConn_body f (c, out)) = Continue" by simp
  from handleConn_loop_Continue [OF this] show ?thesis
    using body write_msg_fields [OF assms(3)] r by simp
qed

theorem write_failure_continues_witness:
  "fst (handleConn_body cbrt_text_sample
     (conn0\<lparr>incoming := map (Data 0) (''8'' @ [DELIMITER]),
             outcomes := [WriteFail 0 0 (ErrOther ''broken pipe'')]\<rparr>, [])) = Continue
   \<and> snd (snd (handleConn_body cbrt_text_sample
     (conn0\<lparr>incoming := map (Data 0) (''8'' @ [DELIMITER]),
             outcomes := [WriteFail 0 0 (ErrOther ''broken pipe'')]\<rparr>, [])))
     = [ReceivedRequest ''8'', WriteError (ErrOther ''broken pipe''),
        SentResponse 0 ''The cube root of 8 is 2.000000.'']"
proof -
  let ?c = "conn0\<lparr>incoming := map (Data 0) (''8'' @ [DELIMITER]),
             outcomes := [WriteFail 0 0 (ErrOther ''broken pipe'')]\<rparr>"
  let ?c2 = "conn0\<lparr>readDeadline := Some 10000000000,
             outcomes := [WriteFail 0 0 (ErrOther ''broken pipe'')]\<rparr>"
  have rd: "read (SetReadDeadline ?c (clock ?c + 10 * Second)) = (Inr ''8'', ?c2)"
    by (simp add: read_def read_loop.simps conn_Read_def conn0_def expired_def DELIMITER_def
        Second_def SetReadDeadline_def)
  have v: "strToInt32 ''8'' = Inr 8"
    by (simp add: strToInt32_def ParseInt_def ParseUint_def IntSize_def digit_of_def
        lower_def maxUint64_def MaxInt32_def MinInt32_def int32_def)
  have resp: "''The cube root of 8 is 2.000000.''
      = (case strToInt32 ''8'' of Inl e \<Rightarrow> e | Inr v \<Rightarrow> respMsg cbrt_text_sample v)"
    by (simp add: v respMsg_def cbrt_text_sample_def fmt_d_def digits_nat.simps)
  have w: "write_msg ?c2 ''The cube root of 8 is 2.000000.''
      = ((0, Some (ErrOther ''broken pipe'')),
         ?c2\<lparr>outcomes := [], writes := [''The cube root of 8 is 2.000000.'' @ [DELIMITER]]\<rparr>)"
    by (simp add: write_msg_def conn_Write_def conn0_def)
  show ?thesis
    using write_failure_continues [OF rd resp w, of "[]"] v
    by simp
qed

text \<open>
  The claim C1 as it was stated says that the handler reads no further request after a
  failed write. Here the write of the first response fails; the handler then reads the
  second request and answers it, and ends only when the peer has closed.
\<close>

theorem write_failure_counterexample:
  "handleConn cbrt_text_sample
     (conn0\<lparr>incoming := map (Data 0) (''8'' @ [DELIMITER] @ ''x'' @ [DELIMITER]),
             outcomes := [WriteFail 0 0 (ErrOther ''broken pipe'')]\<rparr>) [] 1
   = (\<lparr>clock = 0, readDeadline = Some 10000000000, incoming = [], outcomes = [],
       writes = [''The cube root of 8 is 2.000000.'' @ [DELIMITER],
                 CHR 0x22 # ''x'' @ CHR 0x22 # '' is not integer'' @ [DELIMITER]],
       closes = 1\<rparr>,
      [ReceivedRequest ''8'', WriteError (ErrOther ''broken pipe''),
       SentResponse 0 ''The cube root of 8 is 2.000000.'',
       ReceivedRequest ''x'', SentErrorMessage 19 None, ClosedByOtherSide], Some 0)"
  by (simp add: handleConn_def handleConn_loop.simps handleConn_body_def read_def
      read_loop.simps conn_Read_def conn0_def expired_def DELIMITER_def Second_def
      SetReadDeadline_def strToInt32_def ParseInt_def ParseUint_def IntSize_def digit_of_def
      lower_def maxUint64_def MaxInt32_def MinInt32_def int32_def write_msg_def conn_Write_def
      respMsg_def fmt_d_def digits_nat.simps conn_Close_def wg_Done_def wg_Add_def
      cbrt_text_sample_def)




subsection \<open>The idle timeout\<close>

lemma read_loop_before_gap:
  assumes "incoming c = pre @ ev # rest"
    and "readDeadline c = Some d" and "d < ev_time ev"
    and "cell \<noteq> DELIMITER"
    and "clock c \<le> B" and "\<forall>e\<in>set pre. ev_time e \<le> B" and "B < ev_time ev"
    and "read_loop c cell buffer = (r, c1)"
  shows "(\<exists>k\<le>length pre. incoming c1 = drop k pre @ ev # rest
            \<and> (\<forall>s. r = Inr s \<longrightarrow> delims (drop k pre) < delims pre))
         \<and> writes c1 = writes c \<and> closes c1 = closes c \<and> outcomes c1 = outcomes c
         \<and> readDeadline c1 = readDeadline c
         \<and> (\<forall>s. r = Inr s \<longrightarrow> clock c1 \<le> B) \<and> clock c1 < ev_time ev"
  using assms
proof (induction pre arbitrary: c cell buffer)
  case Nil
  have "read_loop c cell buffer = (Inl ErrTimeout, c\<lparr>clock := max (clock c) d\<rparr>)"
    using Nil.prems by (intro read_loop_timeout) auto
  then show ?case using Nil.prems by auto
next
  case (Cons p ps)
  have inc: "incoming c = p # (ps @ ev # rest)" using Cons.prems(1) by simp
  show ?case
  proof (cases "d < max (clock c) (ev_time p)")
    case True
    have "read_loop c cell buffer = (Inl ErrTimeout, c\<lparr>clock := max (clock c) d\<rparr>)"
      using inc Cons.prems(2) True by (intro read_loop_timeout) simp_all
    then show ?thesis using Cons.prems by auto
  next
    case False
    then have ne: "\<not> expired (readDeadline c) (max (clock c) (ev_time p))"
      using Cons.prems(2) by (simp add: expired_def)
    let ?c' = "c\<lparr>clock := max (clock c) (ev_time p), incoming := ps @ ev # rest\<rparr>"
    note unfold = read_loop_consume [OF inc ne, of cell buffer]
    have pB: "ev_time p \<le> B" using Cons.prems(6) by simp
    have clk: "clock ?c' \<le> B" using Cons.prems(5) pB by simp
    have IH: "read_loop ?c' cell' buffer' = (r, c1) \<Longrightarrow> cell' \<noteq> DELIMITER \<Longrightarrow>
      (\<exists>k\<le>length ps. incoming c1 = drop k ps @ ev # rest
            \<and> (\<forall>s. r = Inr s \<longrightarrow> delims (drop k ps) < delims ps))
         \<and> writes c1 = writes c \<and> closes c1 = closes c \<and> outcomes c1 = outcomes c
         \<and> readDeadline c1 = readDeadline c
         \<and> (\<forall>s. r = Inr s \<longrightarrow> clock c1 \<le> B) \<and> clock c1 < ev_time ev" for cell' buffer'
      using Cons.IH [of ?c' cell' buffer'] Cons.prems(2,3,6,7) clk by simp
    have lift: "(\<exists>k\<le>length ps. incoming c1 = drop k ps @ ev # rest
            \<and> (\<forall>s. r = Inr s \<longrightarrow> delims (drop k ps) < delims ps)) \<Longrightarrow>
        (\<exists>k\<le>length (p # ps). incoming c1 = drop k (p # ps) @ ev # rest
            \<and> (\<forall>s. r = Inr s \<longrightarrow> delims (drop k (p # ps)) < delims (p # ps)))"
    proof -
      assume "\<exists>k\<le>length ps. incoming c1 = drop k ps @ ev # rest
            \<and> (\<forall>s. r = Inr s \<longrightarrow> delims (drop k ps) < delims ps)"
      then obtain k where k: "k \<le> length ps" "incoming c1 = drop k ps @ ev # rest"
        "\<forall>s. r = Inr s \<longrightarrow> delims (drop k ps) < delims ps" by blast
      have "Suc k \<le> length (p # ps)" using k(1) by simp
      moreover have "incoming c1 = drop (Suc k) (p # ps) @ ev # rest" using k(2) by simp
      moreover have "\<forall>s. r = Inr s \<longrightarrow> delims (drop (Suc k) (p # ps)) < delims (p # ps)"
        using k(3) by (auto simp add: delims_Cons)
      ultimately show ?thesis by blast
    qed
    show ?thesis
    proof (cases p)
      case (Data t b)
      show ?thesis
      proof (cases "b = DELIMITER")
        case True
        then have res: "r = Inr buffer" "c1 = ?c'"
          using unfold Cons.prems(8) Data by simp_all
        have "1 \<le> length (p # ps) \<and> incoming c1 = drop 1 (p # ps) @ ev # rest
            \<and> delims (drop 1 (p # ps)) < delims (p # ps)"
          using res Data True by (simp add: delims_Cons is_delim_def)
        then have "\<exists>k\<le>length (p # ps). incoming c1 = drop k (p # ps) @ ev # rest
            \<and> (\<forall>s. r = Inr s \<longrightarrow> delims (drop k (p # ps)) < delims (p # ps))"
          by blast
        then show ?thesis using res clk Cons.prems(7) by simp
      next
        case False
        then have "read_loop ?c' b (buffer @ [b]) = (r, c1)"
          using unfold Cons.prems(8) Data by simp
        from IH [OF this False] lift show ?thesis by blast
      qed
    next
      case (Empty t)
      have "read_loop ?c' cell (buffer @ [cell]) = (r, c1)"
        using unfold Cons.prems(4,8) Empty by simp
      from IH [OF this Cons.prems(4)] lift show ?thesis by blast
    next
      case (Failure t err)
      then have res: "r = Inl err" "c1 = ?c'"
        using unfold Cons.prems(8) by simp_all
      have "1 \<le> length (p # ps) \<and> incoming c1 = drop 1 (p # ps) @ ev # rest"
        using res by simp
      then have "\<exists>k\<le>length (p # ps). incoming c1 = drop k (p # ps) @ ev # rest
            \<and> (\<forall>s. r = Inr s \<longrightarrow> delims (drop k (p # ps)) < delims (p # ps))"
        using res(1) by blast
      then show ?thesis using res clk Cons.prems(7) by simp
    qed
  qed
qed

lemma blocked_nonneg: "0 \<le> blocked n os"
  by (simp add: blocked_def)

lemma blocked_step:
  assumes "n' < n"
  shows "blocked 1 os + blocked n' (tl os) \<le> blocked n os"
proof (cases os)
  case Nil
  then show ?thesis by (simp add: blocked_def)
next
  case (Cons x xs)
  obtain m where n: "n = Suc m" and m: "n' \<le> m"
    using assms by (cases n) auto
  have "take m xs = take n' xs @ take (m - n') (drop n' xs)"
    using m by (metis le_add_diff_inverse take_add)
  then have "sum_list (map wr_delay (take n' xs)) \<le> sum_list (map wr_delay (take m xs))"
    by simp
  then show ?thesis using Cons n by (simp add: blocked_def)
qed

lemma handleConn_body_before_gap:
  assumes inc: "incoming c = pre @ ev # rest"
    and clk: "clock c + blocked (delims pre) (outcomes c) + 10 * Second < ev_time ev"
    and pre: "\<forall>e\<in>set pre.
                ev_time e + blocked (delims pre) (outcomes c) + 10 * Second < ev_time ev"
    and body: "handleConn_body f (c, out) = (fl, c1, out1)"
  shows "closes c1 = closes c
         \<and> (\<exists>k\<le>length pre. incoming c1 = drop k pre @ ev # rest
               \<and> (fl = Continue \<longrightarrow>
                     delims (drop k pre) < delims pre
                     \<and> clock c1 + blocked (delims (drop k pre)) (outcomes c1) + 10 * Second
                         < ev_time ev
                     \<and> (\<forall>e\<in>set (drop k pre).
                           ev_time e + blocked (delims (drop k pre)) (outcomes c1) + 10 * Second
                             < ev_time ev)))
         \<and> clock c1 < ev_time ev
         \<and> (\<exists>ws. writes c1 = writes c @ ws \<and> length ws \<le> (if fl = Continue then 1 else 0))"
proof -
  define W where "W = blocked (delims pre) (outcomes c)"
  define B where "B = ev_time ev - 10 * Second - 1 - W"
  define c0 where "c0 = SetReadDeadline c (clock c + 10 * Second)"
  have W0: "0 \<le> W" by (simp add: W_def blocked_nonneg)
  obtain r c2 where rd: "read_loop c0 (CHR 0x00) [] = (r, c2)"
    by (cases "read_loop c0 (CHR 0x00) []")
  have c0: "incoming c0 = pre @ ev # rest" "readDeadline c0 = Some (clock c + 10 * Second)"
    "clock c0 = clock c" "writes c0 = writes c" "closes c0 = closes c"
    "outcomes c0 = outcomes c"
    using inc by (simp_all add: c0_def SetReadDeadline_def)
  have B: "clock c0 \<le> B" "\<forall>e\<in>set pre. ev_time e \<le> B" "B < ev_time ev"
    using clk pre c0(3) W0 by (auto simp add: B_def W_def Second_def)
  have dl: "clock c + 10 * Second < ev_time ev"
    using clk W0 by (simp add: W_def)
  have nd: "CHR 0x00 \<noteq> DELIMITER" by (simp add: DELIMITER_def)
  note R = read_loop_before_gap [OF c0(1) c0(2) dl nd B rd]
  from R obtain k where k: "k \<le> length pre" "incoming c2 = drop k pre @ ev # rest"
    "\<forall>s. r = Inr s \<longrightarrow> delims (drop k pre) < delims pre" by blast
  have f2: "writes c2 = writes c" "closes c2 = closes c" "outcomes c2 = outcomes c"
    "clock c2 < ev_time ev"
    using R c0 by simp_all
  have body': "handleConn_body f (c, out) =
      (case (r, c2) of
             (Inl err, c2) \<Rightarrow>
               (Break, c2, out @ [if err = EOF then ClosedByOtherSide else ReadError err])
           | (Inr strReq, c2) \<Rightarrow>
               let out1 = out @ [ReceivedRequest strReq]
               in case strToInt32 strReq of
                    Inl e \<Rightarrow>
                      (case write_msg c2 e of
                         ((n, werr), c3) \<Rightarrow> (Continue, c3, out1 @ [SentErrorMessage n werr]))
                  | Inr intReq \<Rightarrow>
                      (case write_msg c2 (respMsg f intReq) of
                         ((n, werr), c3) \<Rightarrow>
                           let out2 = (case werr of
                                         Some e \<Rightarrow> out1 @ [WriteError e]
                                       | None \<Rightarrow> out1)
                           in (Continue, c3,
                               out2 @ [SentResponse n (respMsg f intReq)])))"
    using rd by (simp add: handleConn_body_def read_def c0_def Let_def)
  show ?thesis
  proof (cases r)
    case (Inl err)
    then have "fl = Break" "c1 = c2" using body body' by simp_all
    then show ?thesis using k(1,2) f2 by auto
  next
    case (Inr strReq)
    have cB: "clock c2 \<le> B" using R Inr by simp
    have less: "delims (drop k pre) < delims pre" using k(3) Inr by simp
    obtain p where p: "p = (case strToInt32 strReq of Inl e \<Rightarrow> e | Inr v \<Rightarrow> respMsg f v)"
      by simp
    obtain n werr c3 where w: "write_msg c2 p = ((n, werr), c3)"
      by (metis prod.exhaust)
    have res: "fl = Continue" "c1 = c3"
      using body body' Inr p w by (auto simp add: Let_def split: sum.splits)
    note Wr = write_msg_fields [OF w]
    define W' where "W' = blocked (delims (drop k pre)) (outcomes c1)"
    have W'0: "0 \<le> W'" by (simp add: W'_def blocked_nonneg)
    have step: "blocked 1 (outcomes c) + W' \<le> W"
      using blocked_step [OF less, of "outcomes c"] Wr res f2(3) by (simp add: W'_def W_def)
    have b10: "0 \<le> blocked 1 (outcomes c)" by (rule blocked_nonneg)
    have clk1: "clock c1 = clock c2 + blocked 1 (outcomes c)"
      using Wr res f2(3) by simp
    have a: "clock c1 + W' + 10 * Second < ev_time ev"
      using clk1 cB step by (simp add: B_def)
    have b: "\<forall>e\<in>set (drop k pre). ev_time e + W' + 10 * Second < ev_time ev"
    proof
      fix e assume "e \<in> set (drop k pre)"
      then have "e \<in> set pre" by (rule in_set_dropD)
      then have "ev_time e \<le> B" using B(2) by simp
      then show "ev_time e + W' + 10 * Second < ev_time ev"
        using step b10 by (simp add: B_def)
    qed
    have c: "clock c1 < ev_time ev"
      using a W'0 by (simp add: Second_def)
    have d: "\<exists>ws. writes c1 = writes c @ ws \<and> length ws \<le> (if fl = Continue then 1 else 0)"
      using Wr res f2(1) by simp
    have e: "\<exists>k\<le>length pre. incoming c1 = drop k pre @ ev # rest
               \<and> (fl = Continue \<longrightarrow>
                     delims (drop k pre) < delims pre
                     \<and> clock c1 + blocked (delims (drop k pre)) (outcomes c1) + 10 * Second
                         < ev_time ev
                     \<and> (\<forall>e\<in>set (drop k pre).
                           ev_time e + blocked (delims (drop k pre)) (outcomes c1) + 10 * Second
                             < ev_time ev))"
      using Wr res k(1,2) less a b unfolding W'_def by auto
    show ?thesis using Wr res f2(2) c d e by simp
  qed
qed

lemma handleConn_loop_before_gap:
  assumes "incoming c = pre @ ev # rest"
    and "clock c + blocked (delims pre) (outcomes c) + 10 * Second < ev_time ev"
    and "\<forall>e\<in>set pre.
           ev_time e + blocked (delims pre) (outcomes c) + 10 * Second < ev_time ev"
    and "handleConn_loop f (c, out) = (c', out')"
  shows "closes c' = closes c
         \<and> (\<exists>k\<le>length pre. incoming c' = drop k pre @ ev # rest)
         \<and> clock c' < ev_time ev
         \<and> (\<exists>ws. writes c' = writes c @ ws \<and> length ws \<le> delims pre)"
  using assms
proof (induction f "(c, out)" arbitrary: c out pre rule: handleConn_loop.induct)
  case (1 f c out)
  obtain fl c1 out1 where body: "handleConn_body f (c, out) = (fl, c1, out1)"
    by (metis prod.exhaust)
  note B = handleConn_body_before_gap [OF "1.prems"(1,2,3) body]
  from B obtain k where k: "k \<le> length pre" "incoming c1 = drop k pre @ ev # rest"
    "fl = Continue \<longrightarrow>
       delims (drop k pre) < delims pre
       \<and> clock c1 + blocked (delims (drop k pre)) (outcomes c1) + 10 * Second < ev_time ev
       \<and> (\<forall>e\<in>set (drop k pre).
             ev_time e + blocked (delims (drop k pre)) (outcomes c1) + 10 * Second
               < ev_time ev)"
    by blast
  from B obtain ws where ws: "writes c1 = writes c @ ws"
    "length ws \<le> (if fl = Continue then 1 else 0)" by blast
  show ?case
  proof (cases fl)
    case Break
    then have "c' = c1" using "1.prems"(4) body by (subst (asm) handleConn_loop.simps) simp
    moreover have "length ws = 0" using ws(2) Break by simp
    ultimately show ?thesis using B k(1,2) ws(1) by auto
  next
    case Continue
    have loop: "handleConn_loop f (c1, out1) = (c', out')"
      using "1.prems"(4) body Continue by (subst (asm) handleConn_loop.simps) simp
    have less: "delims (drop k pre) < delims pre"
      and clk1: "clock c1 + blocked (delims (drop k pre)) (outcomes c1) + 10 * Second
                   < ev_time ev"
      and pre1: "\<forall>e\<in>set (drop k pre).
                   ev_time e + blocked (delims (drop k pre)) (outcomes c1) + 10 * Second
                     < ev_time ev"
      using k(3) Continue by simp_all
    note IH = "1.hyps" [OF body [symmetric] Continue k(2) clk1 pre1 loop]
    from IH obtain k' where k': "k' \<le> length (drop k pre)"
      "incoming c' = drop k' (drop k pre) @ ev # rest" by blast
    from IH obtain ws' where ws': "writes c' = writes c1 @ ws'"
      "length ws' \<le> delims (drop k pre)" by blast
    have "k' + k \<le> length pre \<and> incoming c' = drop (k' + k) pre @ ev # rest"
      using k' k(1) by simp
    then have a: "\<exists>j\<le>length pre. incoming c' = drop j pre @ ev # rest" by blast
    have "writes c' = writes c @ (ws @ ws') \<and> length (ws @ ws') \<le> delims pre"
      using ws ws' less Continue by simp
    then have b: "\<exists>ws. writes c' = writes c @ ws \<and> length ws \<le> delims pre" by blast
    show ?thesis using IH B a b by simp
  qed
qed

text \<open>
  Claim C9, as the code has it. Every pass of the loop sets the read deadline to the
  current time plus 10 seconds before it reads; the current time is taken when the pass
  starts, after the write of the pass before has returned, and writes have no deadline.
  So the idle period that ends the connection is counted on the handler's clock: let
  \<open>ev\<close> be an item that arrives more than 10 seconds, and the time for which the writes
  that answer the complete requests before it stay blocked, after the handler's clock
  and after everything that arrives before it (\<open>pre\<close>). Then the handler never consumes
  \<open>ev\<close>: it closes the connection, once, before \<open>ev\<close> arrives, and it has written at most
  one message for each complete request in \<open>pre\<close>, so none for the idle period.
\<close>

theorem idle_gap_closes_connection:
  "readDeadline (fst (snd (handleConn_body f (c, out)))) = Some (clock c + 10 * Second)
   \<and> (incoming c = pre @ ev # rest
        \<and> clock c + blocked (delims pre) (outcomes c) + 10 * Second < ev_time ev
        \<and> (\<forall>e\<in>set pre.
              ev_time e + blocked (delims pre) (outcomes c) + 10 * Second < ev_time ev)
        \<and> handleConn f c out w = (c', out', w')
      \<longrightarrow> closes c' = closes c + 1
          \<and> (\<exists>k\<le>length pre. incoming c' = drop k pre @ ev # rest)
          \<and> clock c' < ev_time ev
          \<and> (\<exists>ws. writes c' = writes c @ ws \<and> length ws \<le> delims pre))"
proof (rule conjI, rule handleConn_body_deadline, rule impI)
  assume h: "incoming c = pre @ ev # rest
        \<and> clock c + blocked (delims pre) (outcomes c) + 10 * Second < ev_time ev
        \<and> (\<forall>e\<in>set pre.
              ev_time e + blocked (delims pre) (outcomes c) + 10 * Second < ev_time ev)
        \<and> handleConn f c out w = (c', out', w')"
  obtain c1 out1 where loop: "handleConn_loop f (c, out) = (c1, out1)"
    by (metis prod.exhaust)
  have c': "c' = conn_Close c1" using h loop by (simp add: handleConn_def)
  have L: "closes c1 = closes c
         \<and> (\<exists>k\<le>length pre. incoming c1 = drop k pre @ ev # rest)
         \<and> clock c1 < ev_time ev
         \<and> (\<exists>ws. writes c1 = writes c @ ws \<and> length ws \<le> delims pre)"
    using h loop by (intro handleConn_loop_before_gap [of c pre ev rest f out c1 out1]) simp_all
  show "closes c' = closes c + 1
          \<and> (\<exists>k\<le>length pre. incoming c' = drop k pre @ ev # rest)
          \<and> clock c' < ev_time ev
          \<and> (\<exists>ws. writes c' = writes c @ ws \<and> length ws \<le> delims pre)"
    using L c' by (simp add: conn_Close_def)
qed

theorem idle_gap_closes_connection_witness:
  "closes (fst (handleConn cbrt_text_sample
      (conn0\<lparr>incoming := [Data 0 (CHR ''8''), Data 0 DELIMITER, Data 1 (CHR ''2''),
                           Data 30000000000 (CHR ''7''), Data 30000000000 DELIMITER],
              outcomes := [WriteOk 5000000000]\<rparr>) [] 1)) = 1
   \<and> clock (fst (handleConn cbrt_text_sample
      (conn0\<lparr>incoming := [Data 0 (CHR ''8''), Data 0 DELIMITER, Data 1 (CHR ''2''),
                           Data 30000000000 (CHR ''7''), Data 30000000000 DELIMITER],
              outcomes := [WriteOk 5000000000]\<rparr>) [] 1))
       < 30000000000"
proof -
  let ?c = "conn0\<lparr>incoming := [Data 0 (CHR ''8''), Data 0 DELIMITER, Data 1 (CHR ''2''),
                           Data 30000000000 (CHR ''7''), Data 30000000000 DELIMITER],
              outcomes := [WriteOk 5000000000]\<rparr>"
  let ?pre = "[Data 0 (CHR ''8''), Data 0 DELIMITER, Data 1 (CHR ''2'')]"
  let ?ev = "Data 30000000000 (CHR ''7'')"
  obtain c' out' w' where run: "handleConn cbrt_text_sample ?c [] 1 = (c', out', w')"
    by (metis prod.exhaust)
  have inc: "incoming ?c = ?pre @ ?ev # [Data 30000000000 DELIMITER]"
    by simp
  have bl: "blocked (delims ?pre) (outcomes ?c) = 5000000000"
    by (simp add: blocked_def delims_def is_delim_def DELIMITER_def)
  have clk: "clock ?c + blocked (delims ?pre) (outcomes ?c) + 10 * Second < ev_time ?ev"
    unfolding bl by (simp add: conn0_def Second_def)
  have pre: "\<forall>e\<in>set ?pre.
      ev_time e + blocked (delims ?pre) (outcomes ?c) + 10 * Second < ev_time ?ev"
    unfolding bl by (simp add: Second_def)
  have "closes c' = closes ?c + 1 \<and> clock c' < ev_time ?ev"
    using idle_gap_closes_connection [of cbrt_text_sample ?c "[]" ?pre ?ev
        "[Data 30000000000 DELIMITER]" 1 c' out' w']
      inc clk pre run
    by blast
  then show ?thesis using run by (simp add: conn0_def)
qed

text \<open>
  The claim C9 as it was stated takes any period of 10 seconds without a byte to end
  the connection. Here the first request arrives at time 0, the write of its answer
  stays blocked for 15 seconds, and the next request arrives at 12 seconds: no byte
  arrived for 12 seconds, and the handler, back from the write, sets a new deadline,
  reads that request and answers it.
\<close>

theorem idle_gap_counterexample:
  "handleConn cbrt_text_sample
     (conn0\<lparr>incoming := [Data 0 (CHR ''8''), Data 0 DELIMITER,
                          Data 12000000000 (CHR ''x''), Data 12000000000 DELIMITER],
             outcomes := [WriteOk 15000000000]\<rparr>) [] 1
   = (\<lparr>clock = 15000000000, readDeadline = Some 25000000000, incoming = [], outcomes = [],
       writes = [''The cube root of 8 is 2.000000.'' @ [DELIMITER],
                 CHR 0x22 # ''x'' @ CHR 0x22 # '' is not integer'' @ [DELIMITER]],
       closes = 1\<rparr>,
      [ReceivedRequest ''8'', SentResponse 32 ''The cube root of 8 is 2.000000.'',
       ReceivedRequest ''x'', SentErrorMessage 19 None, ClosedByOtherSide], Some 0)"
  by (simp add: handleConn_def handleConn_loop.simps handleConn_body_def read_def
      read_loop.simps conn_Read_def conn0_def expired_def DELIMITER_def Second_def
      SetReadDeadline_def strToInt32_def ParseInt_def ParseUint_def IntSize_def digit_of_def
      lower_def maxUint64_def MaxInt32_def MinInt32_def int32_def write_msg_def conn_Write_def
      respMsg_def fmt_d_def digits_nat.simps conn_Close_def wg_Done_def wg_Add_def
      cbrt_text_sample_def)

section \<open>Properties of the acceptor and of the tracker\<close>

text \<open>
  Claim C2 fails on the code. When \<^verbatim>\<open>Accept\<close> returns an error, \<open>serverGo\<close> prints it
  and goes on in the same pass to ask the nil connection for its remote address, which
  panics: the accept loop ends, no handler is started, and a connection that would have
  been accepted next is never accepted.
\<close>

theorem serverGo_accept_error_panics:
  "serverGo None ((None, Some e) # rest) = (NilConnPanic, [], [GotListener, AcceptError e])"
  by (simp add: serverGo_def)

text \<open>
  Claim C4 fails on the code. The tracker is raised only by \<^verbatim>\<open>wg.Add(2)\<close> in \<open>main\<close>;
  starting a handler does not raise it. After one handler is started the count is 2 with
  three tasks running; after the client and that handler have ended the count is 0 with
  the server still running.
\<close>

theorem tracker_not_raised_on_spawn:
  "run [SpawnHandler] main_started
     = Some \<lparr>wg = 2, server_running = True, client_running = True,
             handlers_running = 1, panicked = False\<rparr>
   \<and> tasks_running \<lparr>wg = 2, server_running = True, client_running = True,
             handlers_running = 1, panicked = False\<rparr> = 3
   \<and> run [SpawnHandler, ClientEnds, HandlerEnds] main_started
     = Some \<lparr>wg = 0, server_running = True, client_running = False,
             handlers_running = 0, panicked = False\<rparr>
   \<and> tasks_running \<lparr>wg = 0, server_running = True, client_running = False,
             handlers_running = 0, panicked = False\<rparr> = 1"
  by (simp add: main_started_def wg_Add_def wg_Done_def done_by_def tasks_running_def)

end
